theory Spec2Isabelle
  imports Main "HOL-Library.Word"
begin

unbundle bit_operations_syntax

section \<open>The bit-packed state of the automaton (main.c)\<close>

text \<open>
  A block is a \<open>uint8_t\<close>. The state array is a list of blocks; a pointer into it is the
  offset of the block from \<open>state_array\<close>. \<open>STATE_SIZE\<close> is a compile-time constant of the
  source (24); the functions below take it as their first argument \<open>n\<close>, so that the
  properties can be stated for every row length.

  \<open>BLOCK_SIZE\<close> is the macro \<open>8 * sizeof(block_t)\<close>, written without parentheses. Since
  \<open>sizeof(block_t) = 1\<close>, every use in the source (\<open>i / BLOCK_SIZE\<close>, \<open>i % BLOCK_SIZE\<close>,
  \<open>BLOCK_SIZE - 1\<close>, ...) expands to the value it would have with the constant 8.
\<close>

type_synonym block_t = "8 word"

definition BLOCK_SIZE :: nat where
  "BLOCK_SIZE = 8 * 1"

definition STATE_SIZE :: nat where
  "STATE_SIZE = 3 * 8"

text \<open>\<open>ARRAY_SIZE\<close> for a row of \<open>n\<close> cells:
  \<open>STATE_SIZE / BLOCK_SIZE + (STATE_SIZE % BLOCK_SIZE != 0)\<close>.\<close>

definition ARRAY_SIZE :: "nat \<Rightarrow> nat" where
  "ARRAY_SIZE n = n div BLOCK_SIZE + (if n mod BLOCK_SIZE \<noteq> 0 then 1 else 0)"

text \<open>\<open>bit_view_t\<close>: one cell, as a block and a bit position in it.\<close>

record bit_view_t =
  pblock :: nat
  position :: nat

text \<open>
  How a call can end without a result: a failed \<open>assert\<close> aborts the process; a
  dereference outside the array, a read of an uninitialised variable or an oversized shift
  is undefined behaviour in C.
\<close>

datatype fault = Assertion_Failed | Undefined_Behaviour

text \<open>
  The functions of the source take a \<open>const bit_view_t *\<close>, which may be \<open>NULL\<close>:
  the argument is an option, \<open>None\<close> for \<open>NULL\<close>. The only assertion of \<open>bit_flip\<close>,
  \<open>conditional_bit_flip\<close> and \<open>get_bit\<close> is \<open>pview != NULL\<close>.

  The block is promoted to \<open>int\<close> (32 bits) for the shift and the result is cut back to
  eight bits. A position from 8 to 30 moves the bit out of the block, which the operations
  on \<open>8 word\<close> do as well; \<open>1 << 31\<close> overflows \<open>int\<close>, and a right shift
  by 32 or more is undefined.
\<close>

definition bit_flip :: "bit_view_t option \<Rightarrow> block_t list \<Rightarrow> fault + block_t list" where
  "bit_flip pview mem =
     (case pview of
        None \<Rightarrow> Inl Assertion_Failed
      | Some v \<Rightarrow>
          if pblock v < length mem \<and> position v < 31
          then Inr (mem[pblock v := (mem ! pblock v) XOR push_bit (position v) 1])
          else Inl Undefined_Behaviour)"

definition conditional_bit_flip ::
  "bit_view_t option \<Rightarrow> bool \<Rightarrow> block_t list \<Rightarrow> fault + block_t list" where
  "conditional_bit_flip pview flip mem =
     (case pview of
        None \<Rightarrow> Inl Assertion_Failed
      | Some v \<Rightarrow> if flip then bit_flip pview mem else Inr mem)"

definition get_bit :: "bit_view_t option \<Rightarrow> block_t list \<Rightarrow> fault + bool" where
  "get_bit pview mem =
     (case pview of
        None \<Rightarrow> Inl Assertion_Failed
      | Some v \<Rightarrow>
          if pblock v < length mem \<and> position v < 32
          then Inr ((drop_bit (position v) (mem ! pblock v)) AND 1 \<noteq> 0)
          else Inl Undefined_Behaviour)"

text \<open>
  \<open>evaluate\<close>: the three cells as a number \<open>(l << 2) + (c << 1) + r\<close>, looked up in the
  table of flip rules.
\<close>

definition evaluate ::
  "bit_view_t option \<Rightarrow> bit_view_t option \<Rightarrow> bit_view_t option \<Rightarrow> bool list
     \<Rightarrow> block_t list \<Rightarrow> fault + bool" where
  "evaluate pleft_view pcenter_view pright_view pflip_rules mem =
     (if pleft_view = None \<or> pcenter_view = None \<or> pright_view = None
      then Inl Assertion_Failed
      else
        (case get_bit pleft_view mem of Inl e \<Rightarrow> Inl e | Inr l \<Rightarrow>
        (case get_bit pcenter_view mem of Inl e \<Rightarrow> Inl e | Inr c \<Rightarrow>
        (case get_bit pright_view mem of Inl e \<Rightarrow> Inl e | Inr r \<Rightarrow>
          (let val = push_bit 2 (of_bool l) + push_bit 1 (of_bool c) + of_bool r
           in if val < length pflip_rules then Inr (pflip_rules ! val)
              else Inl Undefined_Behaviour)))))"

section \<open>The step\<close>

text \<open>
  The local variables of \<open>automaton_step\<close> together with the array. \<open>curr_result\<close> is
  declared without a value: it is \<open>None\<close> until the loop body assigns it. The two
  assertions of \<open>automaton_step\<close> are on the array pointers; the arrays are lists here,
  so they hold.
\<close>

record step_vars =
  mem :: "block_t list"
  left_view :: bit_view_t
  center_view :: bit_view_t
  right_view :: bit_view_t
  prev_result :: bool
  curr_result :: "bool option"

text \<open>One run of the body of the \<open>for\<close> loop, with loop counter \<open>i\<close>. The position of
  a view is a \<open>uint8_t\<close>.\<close>

definition loop_body :: "bool list \<Rightarrow> nat \<Rightarrow> step_vars \<Rightarrow> fault + step_vars" where
  "loop_body pflip_rules i s =
     (case evaluate (Some (left_view s)) (Some (center_view s)) (Some (right_view s))
             pflip_rules (mem s) of
        Inl e \<Rightarrow> Inl e
      | Inr cr \<Rightarrow>
          (case conditional_bit_flip (Some (left_view s)) (prev_result s) (mem s) of
             Inl e \<Rightarrow> Inl e
           | Inr mem' \<Rightarrow>
               Inr \<lparr>mem = mem',
                    left_view = center_view s,
                    center_view = right_view s,
                    right_view = \<lparr>pblock = i div BLOCK_SIZE,
                                  position = (BLOCK_SIZE - 1 - i mod BLOCK_SIZE) mod 256\<rparr>,
                    prev_result = cr,
                    curr_result = Some cr\<rparr>))"

text \<open>\<open>for (size_t i = 3; i < STATE_SIZE + 1; i++)\<close>, entered with counter \<open>i\<close>.\<close>

function automaton_loop :: "nat \<Rightarrow> bool list \<Rightarrow> nat \<Rightarrow> step_vars \<Rightarrow> fault + step_vars" where
  "automaton_loop n pflip_rules i s =
     (if i < n + 1
      then (case loop_body pflip_rules i s of
              Inl e \<Rightarrow> Inl e
            | Inr s' \<Rightarrow> automaton_loop n pflip_rules (i + 1) s')
      else Inr s)"
  by pat_completeness auto
termination
  by (relation "measure (\<lambda>(n, r, i, s). n + 1 - i)") auto

declare automaton_loop.simps [simp del]

text \<open>The variables on entry to the loop.\<close>

definition step_init :: "block_t list \<Rightarrow> bool \<Rightarrow> step_vars" where
  "step_init state_array prev =
     \<lparr>mem = state_array,
      left_view = \<lparr>pblock = 0, position = BLOCK_SIZE - 1\<rparr>,
      center_view = \<lparr>pblock = 0, position = BLOCK_SIZE - 2\<rparr>,
      right_view = \<lparr>pblock = 0, position = BLOCK_SIZE - 3\<rparr>,
      prev_result = prev,
      curr_result = None\<rparr>"

definition automaton_step :: "nat \<Rightarrow> block_t list \<Rightarrow> bool list \<Rightarrow> fault + block_t list" where
  "automaton_step n state_array pflip_rules =
     (case get_bit (Some \<lparr>pblock = 0, position = BLOCK_SIZE - 1\<rparr>) state_array of
        Inl e \<Rightarrow> Inl e
      | Inr prev \<Rightarrow>
          (case automaton_loop n pflip_rules 3 (step_init state_array prev) of
             Inl e \<Rightarrow> Inl e
           | Inr s \<Rightarrow>
               (case curr_result s of
                  None \<Rightarrow> Inl Undefined_Behaviour
                | Some cr \<Rightarrow> conditional_bit_flip (Some (left_view s)) cr (mem s))))"

definition RULE110 :: "bool list" where
  "RULE110 = [False, True, False, False, False, True, False, True]"

text \<open>The driver's loop without the printing: \<open>k\<close> calls of \<open>automaton_step\<close>.\<close>

fun automaton_steps :: "nat \<Rightarrow> nat \<Rightarrow> block_t list \<Rightarrow> bool list \<Rightarrow> fault + block_t list" where
  "automaton_steps n 0 state_array pflip_rules = Inr state_array"
| "automaton_steps n (Suc k) state_array pflip_rules =
     (case automaton_step n state_array pflip_rules of
        Inl e \<Rightarrow> Inl e
      | Inr state' \<Rightarrow> automaton_steps n k state' pflip_rules)"

text \<open>The initial state of \<open>main\<close>: \<open>block_t automaton_state[ARRAY_SIZE] = {0, 1, 2}\<close>.\<close>

definition automaton_state :: "block_t list" where
  "automaton_state = [0, 1, 2]"


section \<open>Printing\<close>

text \<open>
  The output of \<open>printf\<close> is the string a function returns. \<open>print_block\<close> prints the
  \<open>bits\<close> highest bits of a block: the \<open>while\<close> loop walks a one-bit mask down to
  \<open>end_mask\<close>, then the bit at \<open>end_mask\<close> is printed without a trailing space. The
  variable \<open>mask\<close> of the source is \<open>cur_mask\<close> here.
\<close>

function print_block_loop :: "block_t \<Rightarrow> block_t \<Rightarrow> block_t \<Rightarrow> string" where
  "print_block_loop block end_mask cur_mask =
     (if cur_mask > end_mask
      then [if block AND cur_mask \<noteq> 0 then CHR ''#'' else CHR '' '', CHR '' '']
             @ print_block_loop block end_mask (drop_bit 1 cur_mask)
      else [])"
  by pat_completeness auto
termination
proof (relation "measure (\<lambda>(block, end_mask, cur_mask). unat cur_mask)")
  show "wf (measure (\<lambda>(block, end_mask, cur_mask). unat cur_mask))" by simp
next
  fix block end_mask cur_mask :: block_t
  assume "end_mask < cur_mask"
  then have "cur_mask \<noteq> 0" by auto
  then have "0 < unat cur_mask" by (simp add: unat_gt_0)
  then have "unat cur_mask div 2 < unat cur_mask" by simp
  then show "((block, end_mask, drop_bit 1 cur_mask), (block, end_mask, cur_mask))
      \<in> measure (\<lambda>(block, end_mask, cur_mask). unat cur_mask)"
    by (simp add: drop_bit_eq_div unat_div)
qed

declare print_block_loop.simps [simp del]

text \<open>
  \<open>assert(bits > 0)\<close>. For \<open>bits > BLOCK_SIZE\<close> the shift count
  \<open>BLOCK_SIZE - bits\<close> wraps around in \<open>size_t\<close>: the shift is undefined.
\<close>

definition print_block :: "block_t \<Rightarrow> nat \<Rightarrow> fault + string" where
  "print_block block bits =
     (if \<not> bits > 0 then Inl Assertion_Failed
      else if BLOCK_SIZE < bits then Inl Undefined_Behaviour
      else
        (let cur_mask = push_bit (BLOCK_SIZE - 1) 1;
             end_mask = push_bit (BLOCK_SIZE - bits) 1
         in Inr (print_block_loop block end_mask cur_mask
                 @ [if block AND end_mask \<noteq> 0 then CHR ''#'' else CHR '' ''])))"

text \<open>
  Modelled from the spec: \<open>print_as_characters\<close>, which \<open>pretty_print\<close> calls for every
  block, is not defined in the source. The specification's Render emits each cell as one of
  two glyphs, the glyphs separated by single spaces, and the final block only up to the
  declared cell count. \<open>print_block\<close>, the block printer of the source with the same two
  arguments, prints exactly that for one block, and stands for it.
\<close>

definition print_as_characters :: "block_t \<Rightarrow> nat \<Rightarrow> fault + string" where
  "print_as_characters = print_block"

text \<open>
  \<open>pretty_print\<close>: every block but the last in full, each followed by a space, then the
  \<open>remaining_bits\<close> of the last block and a newline. With no block at all
  \<open>ARRAY_SIZE - 1\<close> wraps around and the loop reads outside the array.
\<close>

function pretty_print_loop :: "nat \<Rightarrow> block_t list \<Rightarrow> nat \<Rightarrow> fault + string" where
  "pretty_print_loop n state_array i =
     (if i < ARRAY_SIZE n - 1
      then (if i < length state_array
            then (case print_as_characters (state_array ! i) BLOCK_SIZE of
                    Inl e \<Rightarrow> Inl e
                  | Inr out \<Rightarrow>
                      (case pretty_print_loop n state_array (i + 1) of
                         Inl e \<Rightarrow> Inl e
                       | Inr rest \<Rightarrow> Inr (out @ '' '' @ rest)))
            else Inl Undefined_Behaviour)
      else Inr [])"
  by pat_completeness auto
termination
  by (relation "measure (\<lambda>(n, state_array, i). ARRAY_SIZE n - 1 - i)") auto

declare pretty_print_loop.simps [simp del]

definition pretty_print :: "nat \<Rightarrow> block_t list \<Rightarrow> fault + string" where
  "pretty_print n state_array =
     (if ARRAY_SIZE n = 0 then Inl Undefined_Behaviour
      else
        (case pretty_print_loop n state_array 0 of
           Inl e \<Rightarrow> Inl e
         | Inr out \<Rightarrow>
             (let remaining_bits = (if n mod BLOCK_SIZE \<noteq> 0 then n mod BLOCK_SIZE else BLOCK_SIZE)
              in if ARRAY_SIZE n - 1 < length state_array
                 then (case print_as_characters (state_array ! (ARRAY_SIZE n - 1)) remaining_bits of
                         Inl e \<Rightarrow> Inl e
                       | Inr last_block \<Rightarrow> Inr (out @ last_block @ [CHR 0x0A]))
                 else Inl Undefined_Behaviour)))"

section \<open>Cells\<close>

text \<open>
  Cell \<open>i\<close> of the row lives in block \<open>i / BLOCK_SIZE\<close> at bit position
  \<open>BLOCK_SIZE - 1 - i % BLOCK_SIZE\<close> (the first cell of a block is its highest bit);
  this is the view that \<open>automaton_step\<close> computes for its loop counter.
\<close>

definition view_of :: "nat \<Rightarrow> bit_view_t" where
  "view_of i = \<lparr>pblock = i div BLOCK_SIZE, position = BLOCK_SIZE - 1 - i mod BLOCK_SIZE\<rparr>"

definition cell :: "block_t list \<Rightarrow> nat \<Rightarrow> bool" where
  "cell st i = bit (st ! (i div BLOCK_SIZE)) (BLOCK_SIZE - 1 - i mod BLOCK_SIZE)"

definition flip_cell :: "block_t list \<Rightarrow> nat \<Rightarrow> block_t list" where
  "flip_cell st i = st[i div BLOCK_SIZE :=
      (st ! (i div BLOCK_SIZE)) XOR push_bit (BLOCK_SIZE - 1 - i mod BLOCK_SIZE) 1]"

definition neighborhood :: "block_t list \<Rightarrow> nat \<Rightarrow> nat" where
  "neighborhood st j =
     4 * of_bool (cell st (j - 1)) + 2 * of_bool (cell st j) + of_bool (cell st (j + 1))"

definition pending :: "bool list \<Rightarrow> block_t list \<Rightarrow> nat \<Rightarrow> bool" where
  "pending rules st j = (if j = 0 then cell st 0 else rules ! neighborhood st j)"

definition loop_inv :: "bool list \<Rightarrow> block_t list \<Rightarrow> nat \<Rightarrow> step_vars \<Rightarrow> bool" where
  "loop_inv rules st0 i s \<longleftrightarrow>
     left_view s = view_of (i - 3) \<and> center_view s = view_of (i - 2) \<and>
     right_view s = view_of (i - 1) \<and>
     length (mem s) = length st0 \<and>
     (\<forall>j < BLOCK_SIZE * length st0.
        cell (mem s) j = (cell st0 j \<noteq> (j < i - 3 \<and> pending rules st0 j))) \<and>
     prev_result s = pending rules st0 (i - 3) \<and>
     curr_result s = (if i = 3 then None else Some (pending rules st0 (i - 3)))"

text \<open>The row of \<open>n\<close> cells that a state array holds.\<close>

definition cells :: "nat \<Rightarrow> block_t list \<Rightarrow> bool list" where
  "cells n st = map (cell st) [0..<n]"

text \<open>
  The table is a table of flips (\<open>pflip_rules\<close>): an entry says whether the centre cell
  changes. \<open>flip_rule\<close> is the next value of the centre cell that a table stands for.
\<close>

definition flip_rule :: "bool list \<Rightarrow> bool \<Rightarrow> bool \<Rightarrow> bool \<Rightarrow> bool" where
  "flip_rule rules l c r = (c \<noteq> rules ! (4 * of_bool l + 2 * of_bool c + of_bool r))"

text \<open>Rule 110 itself, by its Wolfram code: neighbourhood \<open>k\<close> gives bit \<open>k\<close> of 110.\<close>

definition rule110 :: "bool \<Rightarrow> bool \<Rightarrow> bool \<Rightarrow> bool" where
  "rule110 l c r = bit (110 :: nat) (4 * of_bool l + 2 * of_bool c + of_bool r)"

text \<open>
  The reference of the specification: a double-buffered step. Every cell of the new row is
  computed from the old row alone; the first and the last cell are fixed boundaries.
\<close>

definition reference_step :: "(bool \<Rightarrow> bool \<Rightarrow> bool \<Rightarrow> bool) \<Rightarrow> bool list \<Rightarrow> bool list" where
  "reference_step rule cs =
     map (\<lambda>j. if j = 0 \<or> j = length cs - 1 then cs ! j
              else rule (cs ! (j - 1)) (cs ! j) (cs ! (j + 1)))
       [0..<length cs]"

text \<open>A view that may be dereferenced: its block is one of the \<open>ARRAY_SIZE\<close> blocks and
  its position is inside the block.\<close>

definition view_in_array :: "nat \<Rightarrow> bit_view_t \<Rightarrow> bool" where
  "view_in_array n v \<longleftrightarrow> pblock v < ARRAY_SIZE n \<and> position v < BLOCK_SIZE"

text \<open>
  A rendered row, in the words of the specification: one glyph for each cell, \<open>#\<close> for a
  live cell and a space for a dead one, and one space between two glyphs.
\<close>

definition glyph :: "bool \<Rightarrow> char" where
  "glyph alive = (if alive then CHR ''#'' else CHR '' '')"

fun line_of :: "bool list \<Rightarrow> string" where
  "line_of [] = []"
| "line_of [c] = [glyph c]"
| "line_of (c # cs) = glyph c # CHR '' '' # line_of cs"

text \<open>The first \<open>bits\<close> cells of one block.\<close>

definition block_cells :: "block_t \<Rightarrow> nat \<Rightarrow> bool list" where
  "block_cells block bits = map (\<lambda>j. bit block (BLOCK_SIZE - 1 - j)) [0..<bits]"

section \<open>Reading and flipping cells\<close>

lemma get_bit_Some:
  "pblock v < length st \<Longrightarrow> position v < 32 \<Longrightarrow>
   get_bit (Some v) st = Inr (bit (st ! pblock v) (position v))"
  by (simp add: get_bit_def and_one_eq bit_iff_odd_drop_bit odd_iff_mod_2_eq_one)

lemma get_bit_view_of:
  "i div BLOCK_SIZE < length st \<Longrightarrow> get_bit (Some (view_of i)) st = Inr (cell st i)"
  by (simp add: get_bit_Some view_of_def cell_def BLOCK_SIZE_def)

lemma bit_flip_word: "bit ((w::block_t) XOR 2 ^ p) q = (bit w q \<noteq> (q = p \<and> p < 8))"
  by (auto simp add: bit_simps)

lemma pos_inj:
  assumes "i div 8 = j div 8" shows "(7 - j mod 8 = 7 - i mod 8) = (j = (i::nat))"
proof -
  have "i = 8 * (i div 8) + i mod 8" "j = 8 * (j div 8) + j mod 8" by simp_all
  moreover have "i mod 8 < 8" "j mod 8 < 8" by simp_all
  ultimately show ?thesis using assms by linarith
qed

lemma bit_flip_view_of:
  "i div BLOCK_SIZE < length st \<Longrightarrow> bit_flip (Some (view_of i)) st = Inr (flip_cell st i)"
  by (simp add: bit_flip_def view_of_def flip_cell_def BLOCK_SIZE_def)

lemma length_flip_cell: "length (flip_cell st i) = length st"
  by (simp add: flip_cell_def)

lemma cell_flip_cell:
  assumes "i div BLOCK_SIZE < length st"
  shows "cell (flip_cell st i) j = (cell st j \<noteq> (j = i))"
proof (cases "j div 8 = i div 8")
  case True
  have "7 - i mod 8 < (8::nat)" by simp
  with True assms show ?thesis
    by (simp add: cell_def flip_cell_def BLOCK_SIZE_def bit_flip_word pos_inj)
next
  case False
  then have "j \<noteq> i" by auto
  with False show ?thesis by (simp add: cell_def flip_cell_def BLOCK_SIZE_def)
qed

lemma mem_eqI:
  assumes "length a = length b" and "\<And>j. j < BLOCK_SIZE * length a \<Longrightarrow> cell a j = cell b j"
  shows "a = (b :: block_t list)"
proof (rule nth_equalityI)
  show "length a = length b" by fact
next
  fix k assume k: "k < length a"
  show "a ! k = b ! k"
  proof (rule bit_word_eqI)
    fix p assume "p < LENGTH(8)"
    then have p: "p < 8" by simp
    define q where "q = 7 - p"
    have q: "q < 8" "p = 7 - q" using p by (simp_all add: q_def)
    have "8 * k + q < BLOCK_SIZE * length a" using k q by (simp add: BLOCK_SIZE_def)
    then have "cell a (8 * k + q) = cell b (8 * k + q)" by (rule assms(2))
    moreover have "(8 * k + q) div 8 = k" "(8 * k + q) mod 8 = q" using q by simp_all
    ultimately show "bit (a ! k) p = bit (b ! k) p" using q by (simp add: cell_def BLOCK_SIZE_def)
  qed
qed

lemma in_array: "j < BLOCK_SIZE * length st \<Longrightarrow> j div BLOCK_SIZE < length (st::block_t list)"
  by (simp add: BLOCK_SIZE_def less_mult_imp_div_less mult.commute)

lemma evaluate_views:
  assumes "a div BLOCK_SIZE < length st" "b div BLOCK_SIZE < length st"
    "c div BLOCK_SIZE < length st" "length rules = 8"
  shows "evaluate (Some (view_of a)) (Some (view_of b)) (Some (view_of c)) rules st
         = Inr (rules ! (4 * of_bool (cell st a) + 2 * of_bool (cell st b) + of_bool (cell st c)))"
  using assms by (simp add: evaluate_def get_bit_view_of of_bool_def)

lemma conditional_bit_flip_view_of:
  "i div BLOCK_SIZE < length st \<Longrightarrow>
   conditional_bit_flip (Some (view_of i)) f st = Inr (if f then flip_cell st i else st)"
  by (simp add: conditional_bit_flip_def bit_flip_view_of)

lemma view_of_next:
  "\<lparr>pblock = i div BLOCK_SIZE, position = (BLOCK_SIZE - 1 - i mod BLOCK_SIZE) mod 256\<rparr> = view_of i"
  by (simp add: view_of_def BLOCK_SIZE_def)

lemma loop_body_inv:
  assumes inv: "loop_inv rules st0 i s" and i: "3 \<le> i" "i \<le> BLOCK_SIZE * length st0"
    and r: "length rules = 8"
  shows "\<exists>s'. loop_body rules i s = Inr s' \<and> loop_inv rules st0 (i + 1) s'"
proof -
  from inv have views: "left_view s = view_of (i - 3)" "center_view s = view_of (i - 2)"
      "right_view s = view_of (i - 1)"
    and len: "length (mem s) = length st0"
    and cells: "\<And>j. j < BLOCK_SIZE * length st0 \<Longrightarrow>
        cell (mem s) j = (cell st0 j \<noteq> (j < i - 3 \<and> pending rules st0 j))"
    and prev: "prev_result s = pending rules st0 (i - 3)"
    by (simp_all add: loop_inv_def)
  have in3: "i - 3 < BLOCK_SIZE * length st0" "i - 2 < BLOCK_SIZE * length st0"
      "i - 1 < BLOCK_SIZE * length st0"
    using i by simp_all
  then have blk: "(i - 3) div BLOCK_SIZE < length (mem s)" "(i - 2) div BLOCK_SIZE < length (mem s)"
      "(i - 1) div BLOCK_SIZE < length (mem s)"
    by (simp_all add: len in_array)
  have old: "cell (mem s) (i - 3) = cell st0 (i - 3)" "cell (mem s) (i - 2) = cell st0 (i - 2)"
      "cell (mem s) (i - 1) = cell st0 (i - 1)"
    using in3 i by (auto simp add: cells)
  have nb: "4 * of_bool (cell st0 (i - 3)) + 2 * of_bool (cell st0 (i - 2)) + of_bool (cell st0 (i - 1))
      = neighborhood st0 (i - 2)"
  proof -
    have "i - 2 - 1 = i - 3" "i - 2 + 1 = i - 1" using i by arith+
    then show ?thesis by (simp only: neighborhood_def)
  qed
  have ev: "evaluate (Some (left_view s)) (Some (center_view s)) (Some (right_view s)) rules (mem s)
      = Inr (pending rules st0 (i - 2))"
  proof -
    have "i - 2 \<noteq> 0" using i by arith
    then have "pending rules st0 (i - 2) = rules ! neighborhood st0 (i - 2)"
      by (simp add: pending_def)
    then show ?thesis
      unfolding views using evaluate_views [OF blk r] by (simp only: old nb)
  qed
  define st' where "st' = (if prev_result s then flip_cell (mem s) (i - 3) else mem s)"
  have fl: "conditional_bit_flip (Some (left_view s)) (prev_result s) (mem s) = Inr st'"
    by (simp add: views conditional_bit_flip_view_of blk st'_def)
  define s' where "s' = \<lparr>mem = st', left_view = center_view s, center_view = right_view s,
      right_view = view_of i, prev_result = pending rules st0 (i - 2),
      curr_result = Some (pending rules st0 (i - 2))\<rparr>"
  have body: "loop_body rules i s = Inr s'"
    unfolding loop_body_def ev fl view_of_next s'_def by simp
  have cells': "cell st' j = (cell st0 j \<noteq> (j < i + 1 - 3 \<and> pending rules st0 j))"
    if "j < BLOCK_SIZE * length st0" for j
  proof -
    have "cell st' j = (cell (mem s) j \<noteq> (j = i - 3 \<and> pending rules st0 j))"
      by (auto simp add: st'_def cell_flip_cell blk prev)
    also have "\<dots> = (cell st0 j \<noteq> (j < i + 1 - 3 \<and> pending rules st0 j))"
    proof -
      have "j < i + 1 - 3 \<longleftrightarrow> j < i - 3 \<or> j = i - 3" using i by arith
      then show ?thesis using that by (auto simp add: cells)
    qed
    finally show ?thesis .
  qed
  have len': "length st' = length st0"
    by (simp add: st'_def length_flip_cell len)
  have idx: "i + 1 - 3 = i - 2" "i + 1 - 2 = i - 1" "i + 1 - 1 = i" "i + 1 \<noteq> 3"
    using i by arith+
  have "loop_inv rules st0 (i + 1) s'"
    unfolding loop_inv_def
  proof (intro conjI allI impI)
    show "left_view s' = view_of (i + 1 - 3)" by (simp add: s'_def views idx)
    show "center_view s' = view_of (i + 1 - 2)" by (simp add: s'_def views idx)
    show "right_view s' = view_of (i + 1 - 1)" by (simp add: s'_def)
    show "length (mem s') = length st0" by (simp add: s'_def len')
    show "prev_result s' = pending rules st0 (i + 1 - 3)" by (simp add: s'_def idx)
    show "curr_result s' = (if i + 1 = 3 then None else Some (pending rules st0 (i + 1 - 3)))"
      using idx by (simp add: s'_def)
    show "cell (mem s') j = (cell st0 j \<noteq> (j < i + 1 - 3 \<and> pending rules st0 j))"
      if "j < BLOCK_SIZE * length st0" for j
      using cells' [OF that] by (simp add: s'_def)
  qed
  with body show ?thesis by blast
qed

lemma automaton_loop_inv:
  assumes "loop_inv rules st0 i s" "3 \<le> i" "i \<le> n + 1" "n \<le> BLOCK_SIZE * length st0"
    "length rules = 8"
  shows "\<exists>s'. automaton_loop n rules i s = Inr s' \<and> loop_inv rules st0 (n + 1) s'"
  using assms
proof (induction n rules i s rule: automaton_loop.induct)
  case (1 n rules i s)
  show ?case
  proof (cases "i < n + 1")
    case True
    with 1 obtain s' where s': "loop_body rules i s = Inr s'" "loop_inv rules st0 (i + 1) s'"
      using loop_body_inv [of rules st0 i s] by auto
    with True 1 have "\<exists>s''. automaton_loop n rules (i + 1) s' = Inr s'' \<and> loop_inv rules st0 (n + 1) s''"
      by simp
    with True s' show ?thesis by (simp add: automaton_loop.simps [of n rules i])
  next
    case False
    with 1 have eq: "i = n + 1" by simp
    from False have "automaton_loop n rules i s = Inr s"
      by (simp add: automaton_loop.simps [of n rules i])
    with eq 1 show ?thesis by auto
  qed
qed

lemma step_init_inv:
  "loop_inv rules st0 3 (step_init st0 (cell st0 0))"
  by (simp add: loop_inv_def step_init_def view_of_def BLOCK_SIZE_def pending_def)

section \<open>What one step does to every cell\<close>

lemma array_covers: "n \<le> BLOCK_SIZE * ARRAY_SIZE n"
proof -
  have "n = 8 * (n div 8) + n mod 8" by simp
  moreover have "n mod 8 < 8" by simp
  ultimately have "n \<le> 8 * (n div 8) + 8" "n mod 8 = 0 \<Longrightarrow> n \<le> 8 * (n div 8)"
    by linarith+
  then show ?thesis by (simp add: ARRAY_SIZE_def BLOCK_SIZE_def)
qed

lemma automaton_step_cells:
  assumes n: "3 \<le> n" "n \<le> BLOCK_SIZE * length st" and r: "length rules = 8"
  shows "\<exists>st'. automaton_step n st rules = Inr st' \<and> length st' = length st \<and>
           (\<forall>j < BLOCK_SIZE * length st.
              cell st' j = (cell st j \<noteq> (j < n - 1 \<and> pending rules st j)))"
proof -
  from n have "0 < length st" by (cases st) simp_all
  then have first: "get_bit (Some \<lparr>pblock = 0, position = BLOCK_SIZE - 1\<rparr>) st = Inr (cell st 0)"
    by (simp add: get_bit_Some cell_def BLOCK_SIZE_def)
  from automaton_loop_inv [OF step_init_inv, of n st rules] n r
  obtain s where loop: "automaton_loop n rules 3 (step_init st (cell st 0)) = Inr s"
    and inv: "loop_inv rules st (n + 1) s"
    by auto
  have idx: "n + 1 - 3 = n - 2" "n + 1 \<noteq> 3" using n by arith+
  from inv have left: "left_view s = view_of (n - 2)"
    and len: "length (mem s) = length st"
    and cells: "\<And>j. j < BLOCK_SIZE * length st \<Longrightarrow>
        cell (mem s) j = (cell st j \<noteq> (j < n - 2 \<and> pending rules st j))"
    and curr: "curr_result s = Some (pending rules st (n - 2))"
    unfolding loop_inv_def idx using n by simp_all
  have blk: "(n - 2) div BLOCK_SIZE < length (mem s)"
    using n by (simp add: len in_array)
  define st' where "st' = (if pending rules st (n - 2) then flip_cell (mem s) (n - 2) else mem s)"
  have "automaton_step n st rules = Inr st'"
    unfolding automaton_step_def first by (simp add: loop curr left conditional_bit_flip_view_of blk st'_def)
  moreover have "length st' = length st"
    by (simp add: st'_def length_flip_cell len)
  moreover have "cell st' j = (cell st j \<noteq> (j < n - 1 \<and> pending rules st j))"
    if "j < BLOCK_SIZE * length st" for j
  proof -
    have "cell st' j = (cell (mem s) j \<noteq> (j = n - 2 \<and> pending rules st j))"
      by (auto simp add: st'_def cell_flip_cell blk)
    moreover have "j < n - 1 \<longleftrightarrow> j < n - 2 \<or> j = n - 2" using n by arith
    ultimately show ?thesis using that by (auto simp add: cells)
  qed
  ultimately show ?thesis by blast
qed

lemma automaton_loop_split:
  assumes "i \<le> m + 1" "m \<le> n"
  shows "automaton_loop n rules i s =
         (case automaton_loop m rules i s of Inl e \<Rightarrow> Inl e | Inr s' \<Rightarrow> automaton_loop n rules (m + 1) s')"
  using assms
proof (induction m rules i s rule: automaton_loop.induct)
  case (1 m rules i s)
  show ?case
  proof (cases "i < m + 1")
    case True
    then have n: "i < n + 1" using 1 by simp
    show ?thesis
    proof (cases "loop_body rules i s")
      case (Inl e)
      with True n show ?thesis
        by (simp add: automaton_loop.simps [of n rules i] automaton_loop.simps [of m rules i])
    next
      case (Inr s1)
      with True 1 have "automaton_loop n rules (i + 1) s1 =
         (case automaton_loop m rules (i + 1) s1 of Inl e \<Rightarrow> Inl e
          | Inr s' \<Rightarrow> automaton_loop n rules (m + 1) s')"
        by simp
      with True n Inr show ?thesis
        by (simp add: automaton_loop.simps [of n rules i] automaton_loop.simps [of m rules i])
    qed
  next
    case False
    with 1 have "i = m + 1" by simp
    moreover from False have "automaton_loop m rules i s = Inr s"
      by (simp add: automaton_loop.simps [of m rules i])
    ultimately show ?thesis by simp
  qed
qed

section \<open>The seed of the driver\<close>

text \<open>
  C5, as the code has it. The initialiser \<open>{0, 1, 2}\<close> of \<open>main\<close> sets two cells of the 24:
  cell 15 (block 1 is \<open>0b00000001\<close>) and cell 22 (block 2 is \<open>0b00000010\<close>). One step with
  the rule-110 table gives the blocks \<open>{0, 3, 6}\<close>: cells 14, 15, 21 and 22 are alive, so
  cells 21 and 22 are both alive, and cells 23 and 0 have the value they had in the seed.
\<close>

theorem seed_step:
  "filter (cell automaton_state) [0..<STATE_SIZE] = [15, 22] \<and>
   automaton_step STATE_SIZE automaton_state RULE110 = Inr [0, 3, 6] \<and>
   filter (cell [0, 3, 6]) [0..<STATE_SIZE] = [14, 15, 21, 22] \<and>
   cell [0, 3, 6] 23 = cell automaton_state 23 \<and>
   cell [0, 3, 6] 0 = cell automaton_state 0"
  by code_simp

text \<open>
  The seed does not have cell 22 as its only live cell: cell 15 is alive as well.
\<close>

theorem seed_cell_15: "cell automaton_state 15 \<and> (15::nat) \<noteq> 22"
  by code_simp

section \<open>The first cell\<close>

text \<open>
  C9. Whatever the state before the call (a row of at least three cells in its
  \<open>ARRAY_SIZE\<close> blocks, a table of eight rules), the step returns and cell 0 is dead
  afterwards: \<open>prev_result\<close> starts as the value of cell 0 and the first pending write
  flips cell 0 exactly when that value is 1.
\<close>

theorem first_cell_cleared:
  assumes "3 \<le> n" "length state_array = ARRAY_SIZE n" "length pflip_rules = 8"
  shows "\<exists>state'. automaton_step n state_array pflip_rules = Inr state' \<and> \<not> cell state' 0"
proof -
  have "n \<le> BLOCK_SIZE * length state_array" using assms(2) by (simp add: array_covers)
  from automaton_step_cells [OF assms(1) this assms(3)] obtain state'
    where st: "automaton_step n state_array pflip_rules = Inr state'"
      and cells: "\<And>j. j < BLOCK_SIZE * length state_array \<Longrightarrow>
          cell state' j = (cell state_array j \<noteq> (j < n - 1 \<and> pending pflip_rules state_array j))"
    by blast
  have "0 < BLOCK_SIZE * length state_array" using assms(1) \<open>n \<le> _\<close> by linarith
  from cells [OF this] assms(1) have "\<not> cell state' 0" by (simp add: pending_def)
  with st show ?thesis by blast
qed

theorem first_cell_cleared_witness:
  "3 \<le> STATE_SIZE \<and> length [0x80, 0, 0 :: block_t] = ARRAY_SIZE STATE_SIZE \<and> length RULE110 = 8 \<and>
   cell [0x80, 0, 0] 0 \<and>
   (\<exists>state'. automaton_step STATE_SIZE [0x80, 0, 0] RULE110 = Inr state' \<and> \<not> cell state' 0)"
proof -
  have h: "3 \<le> STATE_SIZE" "length [0x80, 0, 0 :: block_t] = ARRAY_SIZE STATE_SIZE" "length RULE110 = 8"
    by (simp_all add: STATE_SIZE_def ARRAY_SIZE_def BLOCK_SIZE_def RULE110_def)
  moreover have "cell [0x80, 0, 0] 0" by code_simp
  ultimately show ?thesis using first_cell_cleared [OF h] by simp
qed

text \<open>The last cell and the padding bits behind it are never written.\<close>

lemma last_cell_kept:
  assumes "3 \<le> n" "length st = ARRAY_SIZE n" "length rules = 8"
    and "n - 1 \<le> j" "j < BLOCK_SIZE * length st"
  shows "\<exists>st'. automaton_step n st rules = Inr st' \<and> cell st' j = cell st j"
proof -
  have "n \<le> BLOCK_SIZE * length st" using assms(2) by (simp add: array_covers)
  from automaton_step_cells [OF assms(1) this assms(3)] assms(4,5) show ?thesis by auto
qed

text \<open>
  C2 at a row whose first cell is alive: the step clears cell 0, although the source
  announces that the first cell will stay the same.
\<close>

theorem first_cell_not_kept:
  "cell [0x80, 0, 0] 0 \<and> automaton_step STATE_SIZE [0x80, 0, 0] RULE110 = Inr [0, 0, 0] \<and>
   \<not> cell [0, 0, 0] 0"
  by code_simp

section \<open>The dead row\<close>

lemma pending_dead:
  assumes "\<forall>j<n. \<not> cell st j" "j < n - 1"
  shows "\<not> pending RULE110 st j"
proof (cases "j = 0")
  case True
  with assms show ?thesis by (simp add: pending_def)
next
  case False
  with assms have "\<not> cell st (j - 1)" "\<not> cell st j" "\<not> cell st (j + 1)" by simp_all
  then have "neighborhood st j = 0" by (simp add: neighborhood_def)
  with False show ?thesis by (simp add: pending_def RULE110_def)
qed

lemma dead_step:
  assumes "3 \<le> n" "length st = ARRAY_SIZE n" "\<forall>j<n. \<not> cell st j"
  shows "automaton_step n st RULE110 = Inr st"
proof -
  have le: "n \<le> BLOCK_SIZE * length st" using assms(2) by (simp add: array_covers)
  have "length RULE110 = 8" by (simp add: RULE110_def)
  from automaton_step_cells [OF assms(1) le this] obtain st'
    where st: "automaton_step n st RULE110 = Inr st'" and len: "length st' = length st"
      and cells: "\<And>j. j < BLOCK_SIZE * length st \<Longrightarrow>
          cell st' j = (cell st j \<noteq> (j < n - 1 \<and> pending RULE110 st j))"
    by blast
  have "st' = st"
  proof (rule mem_eqI)
    show "length st' = length st" by fact
    fix j assume "j < BLOCK_SIZE * length st'"
    then have "cell st' j = (cell st j \<noteq> (j < n - 1 \<and> pending RULE110 st j))"
      by (simp add: cells len)
    then show "cell st' j = cell st j"
      using pending_dead [OF assms(3), of j] by auto
  qed
  with st show ?thesis by simp
qed

text \<open>
  C6. A row of \<open>n\<close> cells (at least the three of the first window) that are all dead is
  returned unchanged by any number of steps with the rule-110 table.
\<close>

theorem all_dead_fixed_point:
  assumes "3 \<le> n" "length state_array = ARRAY_SIZE n" "\<forall>j<n. \<not> cell state_array j"
  shows "automaton_steps n k state_array RULE110 = Inr state_array"
  by (induction k) (simp_all add: dead_step [OF assms])

theorem all_dead_fixed_point_witness:
  "3 \<le> STATE_SIZE \<and> length [0, 0, 0 :: block_t] = ARRAY_SIZE STATE_SIZE \<and>
   filter (cell [0, 0, 0]) [0..<STATE_SIZE] = [] \<and>
   automaton_steps STATE_SIZE 100 [0, 0, 0] RULE110 = Inr [0, 0, 0]"
proof -
  have h: "3 \<le> STATE_SIZE" "length [0, 0, 0 :: block_t] = ARRAY_SIZE STATE_SIZE"
    by (simp_all add: STATE_SIZE_def ARRAY_SIZE_def BLOCK_SIZE_def)
  have d: "\<forall>j<STATE_SIZE. \<not> cell [0, 0, 0] j"
  proof (intro allI impI)
    fix j assume "j < STATE_SIZE"
    then have "j div 8 < 3" by (simp add: STATE_SIZE_def div_less_iff_less_mult)
    then have "j div 8 = 0 \<or> j div 8 = 1 \<or> j div 8 = 2" by arith
    then have "[0, 0, 0 :: block_t] ! (j div 8) = 0" by auto
    then show "\<not> cell [0, 0, 0] j" by (simp add: cell_def BLOCK_SIZE_def)
  qed
  have "filter (cell [0, 0, 0]) [0..<STATE_SIZE] = []" using d by (simp add: filter_empty_conv)
  then show ?thesis using h all_dead_fixed_point [OF h d, of 100] by simp
qed

section \<open>The table of rules\<close>

lemma flip_rule_RULE110: "flip_rule RULE110 l c r = rule110 l c r"
  by (cases l; cases c; cases r) (simp_all add: flip_rule_def rule110_def RULE110_def bit_Suc_0_iff)

text \<open>
  C3, as the code has it. Stepping a window of three cells (\<open>n = 3\<close>, one block \<open>w\<close>) gives
  the centre cell its old value flipped exactly when the table entry of the neighbourhood
  \<open>left * 4 + center * 2 + right\<close> is true: the entry is a flip, not the next value.
\<close>

theorem center_flips_by_rule:
  assumes "length pflip_rules = 8"
  shows "\<exists>w'. automaton_step 3 [w] pflip_rules = Inr [w'] \<and>
           cell [w'] 1 = (cell [w] 1 \<noteq> pflip_rules !
              (4 * of_bool (cell [w] 0) + 2 * of_bool (cell [w] 1) + of_bool (cell [w] 2)))"
proof -
  have "(3::nat) \<le> 3" "3 \<le> BLOCK_SIZE * length [w]" by (simp_all add: BLOCK_SIZE_def)
  from automaton_step_cells [OF this assms] obtain st'
    where st: "automaton_step 3 [w] pflip_rules = Inr st'" and len: "length st' = length [w]"
      and cells: "\<And>j. j < BLOCK_SIZE * length [w] \<Longrightarrow>
          cell st' j = (cell [w] j \<noteq> (j < 3 - 1 \<and> pending pflip_rules [w] j))"
    by blast
  from len obtain w' where w': "st' = [w']" by (cases st') simp_all
  have "1 < BLOCK_SIZE * length [w]" by (simp add: BLOCK_SIZE_def)
  from cells [OF this] have c1: "cell [w'] 1 = (cell [w] 1 \<noteq> pflip_rules ! neighborhood [w] 1)"
    by (simp add: w' pending_def)
  have nb: "neighborhood [w] 1 =
      4 * of_bool (cell [w] 0) + 2 * of_bool (cell [w] 1) + of_bool (cell [w] 2)"
    unfolding neighborhood_def by (simp only: diff_self_eq_0 one_add_one)
  show ?thesis
  proof (intro exI conjI)
    show "automaton_step 3 [w] pflip_rules = Inr [w']" using st w' by simp
    show "cell [w'] 1 = (cell [w] 1 \<noteq> pflip_rules !
        (4 * of_bool (cell [w] 0) + 2 * of_bool (cell [w] 1) + of_bool (cell [w] 2)))"
      using c1 unfolding nb .
  qed
qed

theorem center_flips_by_rule_witness:
  "length RULE110 = 8 \<and>
   (\<exists>w'. automaton_step 3 [0x40] RULE110 = Inr [w'] \<and>
      cell [w'] 1 = (cell [0x40] 1 \<noteq> RULE110 !
         (4 * of_bool (cell [0x40] 0) + 2 * of_bool (cell [0x40] 1) + of_bool (cell [0x40] 2))))"
proof -
  have h: "length RULE110 = 8" by (simp add: RULE110_def)
  show ?thesis using h center_flips_by_rule [OF h, of "0x40"] by simp
qed

text \<open>
  The window 0, 1, 0 has neighbourhood code 2. Its centre cell is alive after the step,
  whereas the table entry for code 2 is false.
\<close>

theorem center_not_table_entry:
  "automaton_step 3 [0x40] RULE110 = Inr [0x40] \<and>
   of_bool (cell [0x40] 0) * 4 + of_bool (cell [0x40] 1) * 2 + of_bool (cell [0x40] 2) = (2::nat) \<and>
   cell [0x40] 1 \<noteq> RULE110 ! 2"
  by code_simp

section \<open>The double-buffered reference\<close>

text \<open>
  On a row whose first cell is dead, the in-place step computes what the reference computes,
  for any table of eight flips, and so does any number of steps.
\<close>

lemma step_refines_reference:
  assumes n: "3 \<le> n" "length st = ARRAY_SIZE n" and r: "length rules = 8"
    and dead: "\<not> cell st 0"
  shows "\<exists>st'. automaton_step n st rules = Inr st' \<and> length st' = length st \<and> \<not> cell st' 0 \<and>
           cells n st' = reference_step (flip_rule rules) (cells n st)"
proof -
  have le: "n \<le> BLOCK_SIZE * length st" using n(2) by (simp add: array_covers)
  from automaton_step_cells [OF n(1) le r] obtain st'
    where st: "automaton_step n st rules = Inr st'" and len: "length st' = length st"
      and cells: "\<And>j. j < BLOCK_SIZE * length st \<Longrightarrow>
          cell st' j = (cell st j \<noteq> (j < n - 1 \<and> pending rules st j))"
    by blast
  have "0 < BLOCK_SIZE * length st" using n(1) le by linarith
  from cells [OF this] have first: "\<not> cell st' 0"
    using dead by (simp add: pending_def)
  have "cells n st' = reference_step (flip_rule rules) (cells n st)"
  proof (rule nth_equalityI)
    show "length (cells n st') = length (reference_step (flip_rule rules) (cells n st))"
      by (simp add: cells_def reference_step_def)
  next
    fix j assume "j < length (cells n st')"
    then have j: "j < n" by (simp add: cells_def)
    then have new: "cell st' j = (cell st j \<noteq> (j < n - 1 \<and> pending rules st j))"
      using le by (simp add: cells)
    show "cells n st' ! j = reference_step (flip_rule rules) (cells n st) ! j"
    proof (cases "j = 0 \<or> j = n - 1")
      case True
      then show ?thesis using j new dead
        by (auto simp add: cells_def reference_step_def pending_def)
    next
      case False
      then have in_row: "j - 1 < n" "j + 1 < n" "j < n - 1" "j \<noteq> 0" using j by arith+
      then have "cell st' j = flip_rule rules (cell st (j - 1)) (cell st j) (cell st (j + 1))"
        using new by (simp add: pending_def neighborhood_def flip_rule_def)
      then show ?thesis using False j in_row
        by (simp add: cells_def reference_step_def)
    qed
  qed
  with st len first show ?thesis by blast
qed

lemma steps_refine_reference:
  assumes "3 \<le> n" "length st = ARRAY_SIZE n" "length rules = 8" "\<not> cell st 0"
  shows "\<exists>st'. automaton_steps n k st rules = Inr st' \<and>
           cells n st' = (reference_step (flip_rule rules) ^^ k) (cells n st)"
  using assms
proof (induction k arbitrary: st)
  case 0
  then show ?case by simp
next
  case (Suc k)
  from step_refines_reference [OF Suc.prems] obtain st1
    where st1: "automaton_step n st rules = Inr st1" "length st1 = length st" "\<not> cell st1 0"
      "cells n st1 = reference_step (flip_rule rules) (cells n st)"
    by blast
  with Suc.prems have "\<exists>st'. automaton_steps n k st1 rules = Inr st' \<and>
      cells n st' = (reference_step (flip_rule rules) ^^ k) (cells n st1)"
    by (intro Suc.IH) simp_all
  with st1 show ?case by (simp add: funpow_swap1)
qed

lemma steps_refine_rule110:
  assumes "3 \<le> n" "length st = ARRAY_SIZE n" "\<not> cell st 0"
  shows "\<exists>st'. automaton_steps n k st RULE110 = Inr st' \<and>
           cells n st' = (reference_step rule110 ^^ k) (cells n st)"
proof -
  have "flip_rule RULE110 = rule110" by (intro ext) (rule flip_rule_RULE110)
  moreover have "length RULE110 = 8" by (simp add: RULE110_def)
  ultimately show ?thesis
    using steps_refine_reference [OF assms(1,2) _ assms(3), of RULE110 k] by simp
qed

text \<open>
  C1 at a row whose first cell is alive: the reference with fixed boundaries leaves the row
  as it is, and the in-place step returns the dead row.
\<close>

theorem reference_keeps_first_cell:
  "automaton_step STATE_SIZE [0x80, 0, 0] RULE110 = Inr [0, 0, 0] \<and>
   reference_step rule110 (cells STATE_SIZE [0x80, 0, 0]) = cells STATE_SIZE [0x80, 0, 0] \<and>
   cells STATE_SIZE [0, 0, 0] \<noteq> cells STATE_SIZE [0x80, 0, 0]"
  by code_simp

section \<open>The window during the loop\<close>

lemma loop_entry:
  assumes i: "3 \<le> i" "i \<le> n + 1" and n: "n \<le> BLOCK_SIZE * length st" and r: "length rules = 8"
  shows "\<exists>s. automaton_loop (i - 1) rules 3 (step_init st (cell st 0)) = Inr s \<and>
           automaton_loop n rules 3 (step_init st (cell st 0)) = automaton_loop n rules i s \<and>
           loop_inv rules st i s"
proof -
  have "3 \<le> i - 1 + 1" "i - 1 \<le> BLOCK_SIZE * length st" "i - 1 + 1 = i" using i n by arith+
  with automaton_loop_inv [OF step_init_inv, of "i - 1" st rules] r
  obtain s where s: "automaton_loop (i - 1) rules 3 (step_init st (cell st 0)) = Inr s"
      "loop_inv rules st i s"
    by auto
  have "3 \<le> i - 1 + 1" "i - 1 \<le> n" using i by arith+
  from automaton_loop_split [OF this, of rules "step_init st (cell st 0)"] s(1) \<open>i - 1 + 1 = i\<close>
  have "automaton_loop n rules 3 (step_init st (cell st 0)) = automaton_loop n rules i s"
    by simp
  with s show ?thesis by blast
qed

text \<open>
  C4. Take the variables \<open>s\<close> on entry to the iteration with counter \<open>i\<close> (the loop run up
  to \<open>i - 1\<close>; the whole loop continues from there). The window is at cells \<open>i - 3\<close>,
  \<open>i - 2\<close>, \<open>i - 1\<close>, and the three reads of \<open>evaluate\<close> return the values of the
  previous generation. The cells written so far are exactly those to the left of the window:
  each has received its pending flip, and every cell from \<open>i - 3\<close> on is untouched. So the
  write to cell \<open>i - 3\<close> happens in this iteration, after its last read.
\<close>

theorem window_holds_previous_generation:
  assumes "3 \<le> i" "i \<le> n" "length state_array = ARRAY_SIZE n" "length pflip_rules = 8"
  shows "get_bit (Some \<lparr>pblock = 0, position = BLOCK_SIZE - 1\<rparr>) state_array
           = Inr (cell state_array 0) \<and>
         (\<exists>s. automaton_loop (i - 1) pflip_rules 3 (step_init state_array (cell state_array 0)) = Inr s \<and>
            automaton_loop n pflip_rules 3 (step_init state_array (cell state_array 0))
              = automaton_loop n pflip_rules i s \<and>
            left_view s = view_of (i - 3) \<and> center_view s = view_of (i - 2) \<and>
            right_view s = view_of (i - 1) \<and>
            get_bit (Some (left_view s)) (mem s) = Inr (cell state_array (i - 3)) \<and>
            get_bit (Some (center_view s)) (mem s) = Inr (cell state_array (i - 2)) \<and>
            get_bit (Some (right_view s)) (mem s) = Inr (cell state_array (i - 1)) \<and>
            (\<forall>j < BLOCK_SIZE * length state_array.
               cell (mem s) j =
                 (if j < i - 3 then cell state_array j \<noteq> pending pflip_rules state_array j
                  else cell state_array j)))"
proof -
  have le: "n \<le> BLOCK_SIZE * length state_array" using assms(3) by (simp add: array_covers)
  then have "0 < length state_array" using assms(1,2) by (cases state_array) simp_all
  then have first: "get_bit (Some \<lparr>pblock = 0, position = BLOCK_SIZE - 1\<rparr>) state_array
      = Inr (cell state_array 0)"
    by (simp add: get_bit_Some cell_def BLOCK_SIZE_def)
  have "i \<le> n + 1" using assms(2) by simp
  from loop_entry [OF assms(1) this le assms(4)] obtain s
    where s: "automaton_loop (i - 1) pflip_rules 3 (step_init state_array (cell state_array 0)) = Inr s"
      "automaton_loop n pflip_rules 3 (step_init state_array (cell state_array 0))
         = automaton_loop n pflip_rules i s"
      and inv: "loop_inv pflip_rules state_array i s"
    by blast
  from inv have views: "left_view s = view_of (i - 3)" "center_view s = view_of (i - 2)"
      "right_view s = view_of (i - 1)"
    and len: "length (mem s) = length state_array"
    and cells: "\<And>j. j < BLOCK_SIZE * length state_array \<Longrightarrow>
        cell (mem s) j = (cell state_array j \<noteq> (j < i - 3 \<and> pending pflip_rules state_array j))"
    by (simp_all add: loop_inv_def)
  have in3: "i - 3 < BLOCK_SIZE * length state_array" "i - 2 < BLOCK_SIZE * length state_array"
      "i - 1 < BLOCK_SIZE * length state_array"
    using assms(1,2) le by arith+
  then have blk: "(i - 3) div BLOCK_SIZE < length (mem s)" "(i - 2) div BLOCK_SIZE < length (mem s)"
      "(i - 1) div BLOCK_SIZE < length (mem s)"
    by (simp_all only: len in_array)
  have old: "cell (mem s) (i - 3) = cell state_array (i - 3)"
      "cell (mem s) (i - 2) = cell state_array (i - 2)"
      "cell (mem s) (i - 1) = cell state_array (i - 1)"
    using cells [OF in3(1)] cells [OF in3(2)] cells [OF in3(3)] assms(1) by auto
  have reads: "get_bit (Some (left_view s)) (mem s) = Inr (cell state_array (i - 3))"
      "get_bit (Some (center_view s)) (mem s) = Inr (cell state_array (i - 2))"
      "get_bit (Some (right_view s)) (mem s) = Inr (cell state_array (i - 1))"
    unfolding views by (simp_all only: get_bit_view_of [OF blk(1)] get_bit_view_of [OF blk(2)]
        get_bit_view_of [OF blk(3)] old)
  have all: "\<forall>j < BLOCK_SIZE * length state_array.
      cell (mem s) j = (if j < i - 3 then cell state_array j \<noteq> pending pflip_rules state_array j
                        else cell state_array j)"
    by (simp add: cells)
  from first s views reads all show ?thesis by blast
qed

theorem window_holds_previous_generation_witness:
  "(3::nat) \<le> 24 \<and> 24 \<le> STATE_SIZE \<and> length automaton_state = ARRAY_SIZE STATE_SIZE \<and>
   length RULE110 = 8 \<and>
   (\<exists>s. automaton_loop (24 - 1) RULE110 3 (step_init automaton_state (cell automaton_state 0)) = Inr s \<and>
      left_view s = view_of (24 - 3) \<and>
      get_bit (Some (left_view s)) (mem s) = Inr (cell automaton_state (24 - 3)))"
proof -
  have h: "(3::nat) \<le> 24" "24 \<le> STATE_SIZE" "length automaton_state = ARRAY_SIZE STATE_SIZE"
      "length RULE110 = 8"
    by (simp_all add: STATE_SIZE_def ARRAY_SIZE_def BLOCK_SIZE_def automaton_state_def RULE110_def)
  from window_holds_previous_generation [OF h] have
    "\<exists>s. automaton_loop (24 - 1) RULE110 3 (step_init automaton_state (cell automaton_state 0)) = Inr s \<and>
      left_view s = view_of (24 - 3) \<and>
      get_bit (Some (left_view s)) (mem s) = Inr (cell automaton_state (24 - 3))"
    by blast
  with h show ?thesis by blast
qed

section \<open>Memory safety of the step\<close>

lemma view_of_in_array: "j < n \<Longrightarrow> view_in_array n (view_of j)"
proof -
  assume "j < n"
  then have "j < BLOCK_SIZE * ARRAY_SIZE n" using array_covers [of n] by linarith
  then have "j div BLOCK_SIZE < ARRAY_SIZE n"
    by (simp add: BLOCK_SIZE_def less_mult_imp_div_less mult.commute)
  then show ?thesis by (simp add: view_in_array_def view_of_def BLOCK_SIZE_def)
qed

lemma views_in_array:
  assumes n: "3 \<le> n" "length st = ARRAY_SIZE n" and r: "length rules = 8"
  shows "\<exists>st'. automaton_step n st rules = Inr st'"
    and "3 \<le> i \<Longrightarrow> i \<le> n \<Longrightarrow>
      \<exists>s. automaton_loop (i - 1) rules 3 (step_init st (cell st 0)) = Inr s \<and>
          automaton_loop n rules 3 (step_init st (cell st 0)) = automaton_loop n rules i s \<and>
          view_in_array n (left_view s) \<and> view_in_array n (center_view s) \<and>
          view_in_array n (right_view s)"
    and "\<exists>s. automaton_loop n rules 3 (step_init st (cell st 0)) = Inr s \<and>
          view_in_array n (left_view s) \<and> right_view s = view_of n"
proof -
  have le: "n \<le> BLOCK_SIZE * length st" using n(2) by (simp add: array_covers)
  from automaton_step_cells [OF n(1) le r] show "\<exists>st'. automaton_step n st rules = Inr st'"
    by blast
  show "\<exists>s. automaton_loop (i - 1) rules 3 (step_init st (cell st 0)) = Inr s \<and>
          automaton_loop n rules 3 (step_init st (cell st 0)) = automaton_loop n rules i s \<and>
          view_in_array n (left_view s) \<and> view_in_array n (center_view s) \<and>
          view_in_array n (right_view s)"
    if i: "3 \<le> i" "i \<le> n"
  proof -
    have "i \<le> n + 1" using i by simp
    from loop_entry [OF i(1) this le r] obtain s
      where s: "automaton_loop (i - 1) rules 3 (step_init st (cell st 0)) = Inr s"
        "automaton_loop n rules 3 (step_init st (cell st 0)) = automaton_loop n rules i s"
        and inv: "loop_inv rules st i s"
      by blast
    have "i - 3 < n" "i - 2 < n" "i - 1 < n" using i by arith+
    then have "view_in_array n (left_view s)" "view_in_array n (center_view s)"
        "view_in_array n (right_view s)"
      using inv by (simp_all add: loop_inv_def view_of_in_array)
    with s show ?thesis by blast
  qed
  have "3 \<le> n + 1" "n + 1 \<le> n + 1" using n(1) by simp_all
  from loop_entry [OF this le r] obtain s
    where s: "automaton_loop (n + 1 - 1) rules 3 (step_init st (cell st 0)) = Inr s"
      and inv: "loop_inv rules st (n + 1) s"
    by blast
  have "n + 1 - 3 < n" using n(1) by arith
  then have "view_in_array n (left_view s)" "right_view s = view_of n"
    using inv by (simp_all add: loop_inv_def view_of_in_array)
  with s show "\<exists>s. automaton_loop n rules 3 (step_init st (cell st 0)) = Inr s \<and>
      view_in_array n (left_view s) \<and> right_view s = view_of n"
    by simp
qed

text \<open>
  C10. On a state of \<open>ARRAY_SIZE\<close> blocks the step returns a state, so no access left the
  array (an access outside it is a fault of the model). The views dereferenced in the
  iteration with counter \<open>i\<close> are the three views on entry to it, and the view dereferenced
  after the loop is the last \<open>left_view\<close>: each lies in the array with its position inside
  the block. The last \<open>right_view\<close>, computed for \<open>i = STATE_SIZE\<close>, points one block past
  the end of the array.
\<close>

theorem dereferenced_views_in_array:
  assumes "length state_array = ARRAY_SIZE STATE_SIZE" "length pflip_rules = 8"
  shows "(\<exists>state'. automaton_step STATE_SIZE state_array pflip_rules = Inr state') \<and>
    (\<forall>i. 3 \<le> i \<and> i \<le> STATE_SIZE \<longrightarrow>
       (\<exists>s. automaton_loop (i - 1) pflip_rules 3 (step_init state_array (cell state_array 0)) = Inr s \<and>
          automaton_loop STATE_SIZE pflip_rules 3 (step_init state_array (cell state_array 0))
            = automaton_loop STATE_SIZE pflip_rules i s \<and>
          view_in_array STATE_SIZE (left_view s) \<and> view_in_array STATE_SIZE (center_view s) \<and>
          view_in_array STATE_SIZE (right_view s))) \<and>
    (\<exists>s. automaton_loop STATE_SIZE pflip_rules 3 (step_init state_array (cell state_array 0)) = Inr s \<and>
       view_in_array STATE_SIZE (left_view s) \<and>
       pblock (right_view s) = ARRAY_SIZE STATE_SIZE \<and>
       \<not> view_in_array STATE_SIZE (right_view s))"
proof -
  have n: "3 \<le> STATE_SIZE" by (simp add: STATE_SIZE_def)
  note v = views_in_array [OF n assms]
  have past: "pblock (view_of STATE_SIZE) = ARRAY_SIZE STATE_SIZE"
    by (simp add: view_of_def STATE_SIZE_def ARRAY_SIZE_def BLOCK_SIZE_def)
  then have out: "\<not> view_in_array STATE_SIZE (view_of STATE_SIZE)"
    by (simp add: view_in_array_def)
  from v(3) past out have last: "\<exists>s. automaton_loop STATE_SIZE pflip_rules 3
        (step_init state_array (cell state_array 0)) = Inr s \<and>
      view_in_array STATE_SIZE (left_view s) \<and>
      pblock (right_view s) = ARRAY_SIZE STATE_SIZE \<and>
      \<not> view_in_array STATE_SIZE (right_view s)"
    by auto
  from v(1) v(2) last show ?thesis by blast
qed

theorem dereferenced_views_in_array_witness:
  "length automaton_state = ARRAY_SIZE STATE_SIZE \<and> length RULE110 = 8 \<and>
   (\<exists>state'. automaton_step STATE_SIZE automaton_state RULE110 = Inr state') \<and>
   (\<exists>s. automaton_loop STATE_SIZE RULE110 3 (step_init automaton_state (cell automaton_state 0)) = Inr s \<and>
       pblock (right_view s) = ARRAY_SIZE STATE_SIZE)"
proof -
  have h: "length automaton_state = ARRAY_SIZE STATE_SIZE" "length RULE110 = 8"
    by (simp_all add: STATE_SIZE_def ARRAY_SIZE_def BLOCK_SIZE_def automaton_state_def RULE110_def)
  from dereferenced_views_in_array [OF h] h show ?thesis by blast
qed

section \<open>Assertions\<close>

text \<open>
  C7, as the code has it. \<open>get_bit\<close>, \<open>bit_flip\<close> and \<open>conditional_bit_flip\<close> take a
  view, not an index, and assert one thing: that the pointer to the view is not \<open>NULL\<close>. A
  \<open>NULL\<close> view fails the assertion; no other view does, whatever cell it names.
\<close>

theorem only_null_view_asserted:
  "get_bit None st = Inl Assertion_Failed \<and> bit_flip None st = Inl Assertion_Failed \<and>
   conditional_bit_flip None f st = Inl Assertion_Failed \<and>
   get_bit (Some v) st \<noteq> Inl Assertion_Failed \<and> bit_flip (Some v) st \<noteq> Inl Assertion_Failed \<and>
   conditional_bit_flip (Some v) f st \<noteq> Inl Assertion_Failed"
  by (simp add: get_bit_def bit_flip_def conditional_bit_flip_def)

text \<open>
  The view of index 24 of the 24-cell row passes the assertion and is dereferenced outside
  the array. The view of index 20 of a 20-cell row (three blocks as well) is read and
  flipped like a cell: it is a padding bit of the last block.
\<close>

theorem out_of_range_not_asserted:
  "get_bit (Some (view_of STATE_SIZE)) automaton_state = Inl Undefined_Behaviour \<and>
   bit_flip (Some (view_of STATE_SIZE)) automaton_state = Inl Undefined_Behaviour \<and>
   ARRAY_SIZE 20 = length automaton_state \<and>
   get_bit (Some (view_of 20)) automaton_state = Inr False \<and>
   bit_flip (Some (view_of 20)) automaton_state = Inr [0, 1, 10]"
  by code_simp

section \<open>The rendered line\<close>

lemma line_of_snoc:
  "line_of (cs @ [c]) = concat (map (\<lambda>b. [glyph b, CHR '' '']) cs) @ [glyph c]"
  by (induction cs rule: line_of.induct) simp_all

lemma line_of_append:
  "xs \<noteq> [] \<Longrightarrow> ys \<noteq> [] \<Longrightarrow> line_of (xs @ ys) = line_of xs @ CHR '' '' # line_of ys"
proof (induction xs rule: line_of.induct)
  case (2 c)
  then show ?case by (cases ys) simp_all
qed simp_all

lemma length_line_of: "length (line_of cs) = 2 * length cs - 1"
  by (induction cs rule: line_of.induct) simp_all

lemma line_of_glyphs: "j < length cs \<Longrightarrow> line_of cs ! (2 * j) = glyph (cs ! j)"
proof (induction cs arbitrary: j rule: line_of.induct)
  case (3 c d cs)
  then show ?case by (cases j) simp_all
qed simp_all

lemma line_of_spaces: "j + 1 < length cs \<Longrightarrow> line_of cs ! (2 * j + 1) = CHR '' ''"
proof (induction cs arbitrary: j rule: line_of.induct)
  case (3 c d cs)
  then show ?case by (cases j) simp_all
qed simp_all

lemma mask_test: "p < 8 \<Longrightarrow> ((w::block_t) AND 2 ^ p \<noteq> 0) = bit w p"
  by (simp add: and_exp_eq_0_iff_not_bit)

lemma unat_mask: "k < 8 \<Longrightarrow> unat ((2::block_t) ^ k) = 2 ^ k"
proof -
  assume k: "k < 8"
  have "(2::block_t) ^ k = of_nat (2 ^ k)" by simp
  then have "unat ((2::block_t) ^ k) = 2 ^ k mod 2 ^ 8"
    by (simp only: unat_of_nat len_bit0 len_num1 mult_1_right) simp
  moreover have "(2::nat) ^ k < 2 ^ 8" using k by (intro power_strict_increasing) simp_all
  ultimately show ?thesis by simp
qed

lemma mask_less: "k < 8 \<Longrightarrow> e < 8 \<Longrightarrow> ((2::block_t) ^ e < 2 ^ k) = (e < k)"
  by (simp add: word_less_nat_alt unat_mask)

lemma mask_shift:
  "e < k \<Longrightarrow> k < 8 \<Longrightarrow> drop_bit (Suc 0) ((2::block_t) ^ k) = 2 ^ (k - Suc 0)"
  by (rule bit_word_eqI) (auto simp add: bit_simps)

lemma print_block_loop_glyphs:
  assumes "k < 8" "e + d = k"
  shows "print_block_loop block (2 ^ e) (2 ^ k)
         = concat (map (\<lambda>j. [glyph (bit block (k - j)), CHR '' '']) [0..<d])"
  using assms
proof (induction d arbitrary: k)
  case 0
  then show ?case by (simp add: print_block_loop.simps [of block "2 ^ k" "2 ^ k"])
next
  case (Suc d)
  then have k: "0 < k" "k - 1 < 8" "e + d = k - 1" "e < k" "e < 8" by arith+
  have "print_block_loop block (2 ^ e) (2 ^ k)
      = [glyph (bit block k), CHR '' ''] @ print_block_loop block (2 ^ e) (2 ^ (k - 1))"
    using Suc.prems k
    by (simp add: print_block_loop.simps [of block "2 ^ e" "2 ^ k"] mask_less mask_test
        mask_shift glyph_def)
  also have "print_block_loop block (2 ^ e) (2 ^ (k - 1))
      = concat (map (\<lambda>j. [glyph (bit block (k - 1 - j)), CHR '' '']) [0..<d])"
    by (rule Suc.IH [OF k(2) k(3)])
  also have "[glyph (bit block k), CHR '' ''] @ \<dots>
      = concat (map (\<lambda>j. [glyph (bit block (k - j)), CHR '' '']) [0..<Suc d])"
    by (simp add: upt_conv_Cons map_Suc_upt [symmetric] comp_def del: upt_Suc)
  finally show ?case .
qed

lemma print_block_line:
  assumes "0 < bits" "bits \<le> BLOCK_SIZE"
  shows "print_block block bits = Inr (line_of (block_cells block bits))"
proof -
  from assms obtain m where m: "bits = Suc m" "m < 8" by (cases bits) (simp_all add: BLOCK_SIZE_def)
  then have e: "7 - m + m = (7::nat)" "8 - Suc m = 7 - m" "7 - m < (8::nat)" by arith+
  have "print_block block bits
      = Inr (print_block_loop block (2 ^ (7 - m)) (2 ^ 7) @ [glyph (bit block (7 - m))])"
    using m e by (simp add: print_block_def BLOCK_SIZE_def glyph_def mask_test)
  also have "print_block_loop block (2 ^ (7 - m)) (2 ^ 7)
      = concat (map (\<lambda>j. [glyph (bit block (7 - j)), CHR '' '']) [0..<m])"
    by (rule print_block_loop_glyphs [OF _ e(1)]) simp
  also have "\<dots> @ [glyph (bit block (7 - m))] = line_of (block_cells block bits)"
    by (simp add: block_cells_def m BLOCK_SIZE_def line_of_snoc comp_def)
  finally show ?thesis .
qed

lemma block_cells_nonempty: "block_cells block BLOCK_SIZE \<noteq> []"
  by (simp add: block_cells_def BLOCK_SIZE_def)

lemma pretty_print_loop_lines:
  assumes "ARRAY_SIZE n \<le> length st"
  shows "pretty_print_loop n st i =
         Inr (concat (map (\<lambda>k. line_of (block_cells (st ! k) BLOCK_SIZE) @ '' '')
                        [i..<ARRAY_SIZE n - 1]))"
  using assms
proof (induction n st i rule: pretty_print_loop.induct)
  case (1 n st i)
  show ?case
  proof (cases "i < ARRAY_SIZE n - 1")
    case True
    then have i: "i < length st" using 1(2) by simp
    have pb: "print_as_characters (st ! i) BLOCK_SIZE = Inr (line_of (block_cells (st ! i) BLOCK_SIZE))"
      unfolding print_as_characters_def by (rule print_block_line) (simp_all add: BLOCK_SIZE_def)
    from 1(1) [OF True i pb] 1(2)
    have "pretty_print_loop n st (i + 1) =
        Inr (concat (map (\<lambda>k. line_of (block_cells (st ! k) BLOCK_SIZE) @ '' '')
                       [i + 1..<ARRAY_SIZE n - 1]))"
      by simp
    with True i pb show ?thesis
      by (simp add: pretty_print_loop.simps [of n st i] upt_conv_Cons)
  next
    case False
    then show ?thesis by (simp add: pretty_print_loop.simps [of n st i])
  qed
qed

lemma cells_of_block:
  assumes "r \<le> BLOCK_SIZE"
  shows "map (cell st) [BLOCK_SIZE * m..<BLOCK_SIZE * m + r] = block_cells (st ! m) r"
proof (rule nth_equalityI)
  show "length (map (cell st) [BLOCK_SIZE * m..<BLOCK_SIZE * m + r]) = length (block_cells (st ! m) r)"
    by (simp add: block_cells_def)
next
  fix j assume "j < length (map (cell st) [BLOCK_SIZE * m..<BLOCK_SIZE * m + r])"
  then have j: "j < r" by simp
  then have "j < 8" using assms by (simp add: BLOCK_SIZE_def)
  then have "(8 * m + j) div 8 = m" "(8 * m + j) mod 8 = j" by simp_all
  then have "cell st (BLOCK_SIZE * m + j) = bit (st ! m) (BLOCK_SIZE - 1 - j)"
    by (simp add: cell_def BLOCK_SIZE_def)
  then show "map (cell st) [BLOCK_SIZE * m..<BLOCK_SIZE * m + r] ! j = block_cells (st ! m) r ! j"
    using j by (simp add: block_cells_def)
qed

lemma cells_of_blocks:
  "map (cell st) [0..<BLOCK_SIZE * m] = concat (map (\<lambda>k. block_cells (st ! k) BLOCK_SIZE) [0..<m])"
proof (induction m)
  case 0
  then show ?case by simp
next
  case (Suc m)
  have "BLOCK_SIZE * Suc m = BLOCK_SIZE * m + BLOCK_SIZE" by simp
  then have split: "[0..<BLOCK_SIZE * Suc m]
      = [0..<BLOCK_SIZE * m] @ [BLOCK_SIZE * m..<BLOCK_SIZE * m + BLOCK_SIZE]"
    by (simp only: upt_add_eq_append [OF le0])
  have "map (cell st) [0..<BLOCK_SIZE * Suc m]
      = map (cell st) [0..<BLOCK_SIZE * m] @ block_cells (st ! m) BLOCK_SIZE"
    unfolding split by (simp add: cells_of_block)
  then show ?case using Suc by simp
qed

lemma cells_split:
  assumes "r \<le> BLOCK_SIZE"
  shows "cells (BLOCK_SIZE * m + r) st =
         concat (map (\<lambda>k. block_cells (st ! k) BLOCK_SIZE) [0..<m]) @ block_cells (st ! m) r"
proof -
  have "[0..<BLOCK_SIZE * m + r] = [0..<BLOCK_SIZE * m] @ [BLOCK_SIZE * m..<BLOCK_SIZE * m + r]"
    by (rule upt_add_eq_append [OF le0])
  then show ?thesis by (simp add: cells_def cells_of_blocks cells_of_block [OF assms])
qed

lemma line_of_blocks:
  assumes "\<And>k. f k \<noteq> []" "ys \<noteq> []"
  shows "line_of (concat (map f [0..<m]) @ ys) =
         concat (map (\<lambda>k. line_of (f k) @ '' '') [0..<m]) @ line_of ys"
  using assms(2)
proof (induction m arbitrary: ys)
  case 0
  then show ?case by simp
next
  case (Suc m)
  have "line_of (concat (map f [0..<Suc m]) @ ys) = line_of (concat (map f [0..<m]) @ (f m @ ys))"
    by simp
  also have "\<dots> = concat (map (\<lambda>k. line_of (f k) @ '' '') [0..<m]) @ line_of (f m @ ys)"
    by (rule Suc.IH) (simp add: Suc.prems)
  also have "line_of (f m @ ys) = line_of (f m) @ CHR '' '' # line_of ys"
    by (rule line_of_append [OF assms(1) Suc.prems])
  finally show ?case by simp
qed

lemma row_layout:
  assumes "0 < n"
  shows "n = BLOCK_SIZE * (ARRAY_SIZE n - 1)
             + (if n mod BLOCK_SIZE \<noteq> 0 then n mod BLOCK_SIZE else BLOCK_SIZE)"
proof -
  have a: "n = 8 * (n div 8) + n mod 8" by simp
  show ?thesis
  proof (cases "n mod 8 = 0")
    case True
    with a assms have "0 < n div 8" by (cases "n div 8") simp_all
    then have "8 * (n div 8) = 8 * (n div 8 - 1) + 8" by simp
    with a True have "n = 8 * (n div 8 - 1) + 8" by linarith
    with True show ?thesis by (simp add: ARRAY_SIZE_def BLOCK_SIZE_def)
  next
    case False
    with a show ?thesis by (simp add: ARRAY_SIZE_def BLOCK_SIZE_def)
  qed
qed

lemma pretty_print_cells:
  assumes "0 < n" "length st = ARRAY_SIZE n"
  shows "pretty_print n st = Inr (line_of (cells n st) @ [CHR 0x0A])"
proof -
  define m where "m = ARRAY_SIZE n - 1"
  define r where "r = (if n mod BLOCK_SIZE \<noteq> 0 then n mod BLOCK_SIZE else BLOCK_SIZE)"
  have n: "n = BLOCK_SIZE * m + r" unfolding m_def r_def by (rule row_layout [OF assms(1)])
  have r: "0 < r" "r \<le> BLOCK_SIZE" by (simp_all add: r_def BLOCK_SIZE_def)
  have pos: "0 < ARRAY_SIZE n"
    using assms(1) array_covers [of n] by (cases "ARRAY_SIZE n") simp_all
  then have m: "m < length st" by (simp add: m_def assms(2))
  have lp: "pretty_print_loop n st 0 =
      Inr (concat (map (\<lambda>k. line_of (block_cells (st ! k) BLOCK_SIZE) @ '' '') [0..<m]))"
    unfolding m_def by (rule pretty_print_loop_lines) (simp add: assms(2))
  have last_block: "print_as_characters (st ! m) r = Inr (line_of (block_cells (st ! m) r))"
    unfolding print_as_characters_def by (rule print_block_line [OF r])
  have "pretty_print n st =
      Inr (concat (map (\<lambda>k. line_of (block_cells (st ! k) BLOCK_SIZE) @ '' '') [0..<m])
           @ line_of (block_cells (st ! m) r) @ [CHR 0x0A])"
    unfolding pretty_print_def Let_def lp [unfolded m_def] last_block [unfolded m_def r_def]
    using pos m [unfolded m_def] by (simp add: m_def r_def)
  moreover have "block_cells (st ! m) r \<noteq> []" using r by (simp add: block_cells_def)
  then have "line_of (cells n st) =
      concat (map (\<lambda>k. line_of (block_cells (st ! k) BLOCK_SIZE) @ '' '') [0..<m])
      @ line_of (block_cells (st ! m) r)"
    unfolding n cells_split [OF r(2)]
    by (intro line_of_blocks block_cells_nonempty)
  ultimately show ?thesis by simp
qed

text \<open>
  C8. For a row of \<open>n\<close> cells in its \<open>ARRAY_SIZE\<close> blocks, \<open>pretty_print\<close> prints one line
  of \<open>2 * n\<close> characters: the glyph of cell \<open>j\<close> at position \<open>2 * j\<close> (\<open>#\<close> if the cell is
  alive, a space if not), a space after every glyph but the last, also between two blocks,
  and the newline at the end. Only the \<open>n\<close> cells appear: the padding bits of the last
  block are not printed.
\<close>

theorem pretty_print_line:
  assumes "0 < n" "length state_array = ARRAY_SIZE n"
  shows "\<exists>out. pretty_print n state_array = Inr out \<and>
           out = line_of (cells n state_array) @ [CHR 0x0A] \<and>
           length out = 2 * n \<and>
           (\<forall>j<n. out ! (2 * j) = (if cell state_array j then CHR ''#'' else CHR '' '')) \<and>
           (\<forall>j<n - 1. out ! (2 * j + 1) = CHR '' '') \<and>
           out ! (2 * n - 1) = CHR 0x0A"
proof -
  define row where "row = line_of (cells n state_array)"
  have len: "length row = 2 * n - 1" by (simp add: row_def length_line_of cells_def)
  have "(row @ [CHR 0x0A]) ! (2 * j) = (if cell state_array j then CHR ''#'' else CHR '' '')"
    if "j < n" for j
  proof -
    have "2 * j < length row" using that len by simp
    then have "(row @ [CHR 0x0A]) ! (2 * j) = row ! (2 * j)" by (simp add: nth_append)
    also have "\<dots> = glyph (cells n state_array ! j)"
      unfolding row_def using that by (intro line_of_glyphs) (simp add: cells_def)
    finally show ?thesis using that by (simp add: glyph_def cells_def)
  qed
  moreover have "(row @ [CHR 0x0A]) ! (2 * j + 1) = CHR '' ''" if "j < n - 1" for j
  proof -
    have "2 * j + 1 < length row" using that len by simp
    then have "(row @ [CHR 0x0A]) ! (2 * j + 1) = row ! (2 * j + 1)" by (simp add: nth_append)
    also have "\<dots> = CHR '' ''"
      unfolding row_def using that by (intro line_of_spaces) (simp add: cells_def)
    finally show ?thesis .
  qed
  moreover have "(row @ [CHR 0x0A]) ! (2 * n - 1) = CHR 0x0A"
    using len by (simp add: nth_append)
  moreover have "length (row @ [CHR 0x0A]) = 2 * n" using len assms(1) by simp
  moreover have "pretty_print n state_array = Inr (row @ [CHR 0x0A])"
    unfolding row_def by (rule pretty_print_cells [OF assms])
  ultimately show ?thesis unfolding row_def by blast
qed

theorem pretty_print_line_witness:
  "0 < STATE_SIZE \<and> length automaton_state = ARRAY_SIZE STATE_SIZE \<and>
   (\<exists>out. pretty_print STATE_SIZE automaton_state = Inr out \<and>
      out = line_of (cells STATE_SIZE automaton_state) @ [CHR 0x0A] \<and>
      length out = 2 * STATE_SIZE)"
proof -
  have h: "0 < STATE_SIZE" "length automaton_state = ARRAY_SIZE STATE_SIZE"
    by (simp_all add: STATE_SIZE_def ARRAY_SIZE_def BLOCK_SIZE_def automaton_state_def)
  from pretty_print_line [OF h] h show ?thesis by blast
qed

text \<open>The first line that \<open>main\<close> prints.\<close>

lemma pretty_print_seed:
  "pretty_print STATE_SIZE automaton_state
   = Inr (''                              #             #  '' @ [CHR 0x0A])"
  by code_simp

end
